theory Spec2Isabelle
  imports Main
begin

section \<open>The nroff writer of xml2rfc (\<^verbatim>\<open>trunk/cli/xml2rfc/writers/nroff.py\<close>)\<close>

text \<open>
  A shallow embedding of \<^verbatim>\<open>NroffRfcWriter\<close>. The writer object is a record that every
  method takes and returns; a method that can raise returns \<open>error + writer\<close>.
  Python names that start with an underscore get the prefix \<open>u_\<close> here
  (\<^verbatim>\<open>_indent\<close> is \<open>u_indent\<close>), since an Isabelle name cannot start with one.
\<close>

subsection \<open>Python strings\<close>

abbreviation backslash :: char where
  "backslash \<equiv> CHR 0x5C"

abbreviation apostrophe :: char where
  "apostrophe \<equiv> CHR 0x27"

text \<open>
  A string is a list of characters, each a code point below 256. The characters that
  \<^verbatim>\<open>strip\<close>, \<^verbatim>\<open>lstrip\<close> and \<^verbatim>\<open>rstrip\<close> remove from a text are those that \<^verbatim>\<open>isspace\<close> holds
  of: tab, newline, vertical tab, form feed, carriage return, the four separators
  \<^verbatim>\<open>0x1C\<close> to \<^verbatim>\<open>0x1F\<close>, space, next line \<^verbatim>\<open>0x85\<close> and no-break space \<^verbatim>\<open>0xA0\<close>.
\<close>

definition isspace :: "char \<Rightarrow> bool" where
  "isspace c =
     (c \<in> set [CHR 0x09, CHR 0x0A, CHR 0x0B, CHR 0x0C, CHR 0x0D,
               CHR 0x1C, CHR 0x1D, CHR 0x1E, CHR 0x1F, CHR '' '', CHR 0x85, CHR 0xA0])"

definition lstrip :: "string \<Rightarrow> string" where
  "lstrip s = dropWhile isspace s"

definition rstrip :: "string \<Rightarrow> string" where
  "rstrip s = rev (dropWhile isspace (rev s))"

definition strip :: "string \<Rightarrow> string" where
  "strip s = rstrip (lstrip s)"

definition startswith :: "string \<Rightarrow> string \<Rightarrow> bool" where
  "startswith s p = (take (length p) s = p)"

text \<open>\<^verbatim>\<open>str(n)\<close> for an integer: the decimal digits, with a minus sign below zero.\<close>

function str_nat :: "nat \<Rightarrow> string" where
  "str_nat n =
     (if n < 10 then [''0123456789'' ! n]
      else str_nat (n div 10) @ [''0123456789'' ! (n mod 10)])"
  by pat_completeness auto
termination
  by (relation "measure id") auto

declare str_nat.simps [simp del]

definition str_int :: "int \<Rightarrow> string" where
  "str_int i = (if i < 0 then CHR ''-'' # str_nat (nat (- i)) else str_nat (nat i))"

subsection \<open>The writer\<close>

datatype error =
    IndexError    \<comment> \<open>\<^verbatim>\<open>s[0]\<close> on an empty string\<close>
  | NoneLine      \<comment> \<open>\<^verbatim>\<open>nroff_escape_linestart\<close> fell off its end and returned \<^verbatim>\<open>None\<close>\<close>

text \<open>
  The fields of \<^verbatim>\<open>self\<close> that the methods below read or write. \<^verbatim>\<open>self.pis\<close> and
  \<^verbatim>\<open>self.defaults\<close> are dictionaries that the base writer fills with a default for
  every key; the three entries read here are fields.
\<close>

record writer =
  buf :: "string list"
  curr_indent :: int
  break_hints :: "nat \<rightharpoonup> int \<times> string"
  "output" :: "string list"
  edit_counter :: int
  width :: int
  toc :: "string list"
  pis_editing :: string
  pis_autobreaks :: string
  defaults_xref_format :: string

subsection \<open>Escaping and plain lines (lines 21--27, 72--80)\<close>

definition nroff_linestart_meta :: "char list" where
  "nroff_linestart_meta = [apostrophe, CHR ''.'']"

definition nroff_escape_linestart :: "string \<Rightarrow> string option" where
  "nroff_escape_linestart line =
     (if startswith line [apostrophe] then Some (backslash # line)
      else if startswith line ''.'' then Some (backslash # CHR ''&'' # line)
      else None)"

definition write_nroff :: "string \<Rightarrow> writer \<Rightarrow> writer" where
  "write_nroff string w = w\<lparr>buf := buf w @ [string]\<rparr>"

text \<open>\<^verbatim>\<open>string[0]\<close> raises on the empty string. Under the guard the escaper always returns a
  string (lemma \<open>nroff_escape_linestart_meta\<close>), so \<open>NoneLine\<close> is never the result.\<close>

definition write_line :: "string \<Rightarrow> writer \<Rightarrow> error + writer" where
  "write_line string w =
     (case string of
        [] \<Rightarrow> Inl IndexError
      | c # _ \<Rightarrow>
          if c \<in> set nroff_linestart_meta
          then (case nroff_escape_linestart string of
                  None \<Rightarrow> Inl NoneLine
                | Some string' \<Rightarrow> Inr (w\<lparr>buf := buf w @ [string']\<rparr>))
          else Inr (w\<lparr>buf := buf w @ [string]\<rparr>))"

subsection \<open>The indentation tracker (lines 61--65)\<close>

definition u_indent :: "int \<Rightarrow> writer \<Rightarrow> writer" where
  "u_indent amount w =
     (if amount \<noteq> curr_indent w
      then (write_nroff (''.in '' @ str_int amount) w)\<lparr>curr_indent := amount\<rparr>
      else w)"

subsection \<open>Pagination (lines 262--286)\<close>

definition page_maxlen :: int where
  "page_maxlen = 55"

text \<open>The condition of the \<^verbatim>\<open>if\<close> of lines 275--279, with \<open>available\<close> and \<open>needed\<close>
  computed as in lines 270--274.\<close>

definition hint_break :: "string \<Rightarrow> int \<Rightarrow> string \<Rightarrow> int \<times> string \<Rightarrow> bool" where
  "hint_break autobreaks page_len line hint =
     (let available = page_maxlen - page_len;
          needed = fst hint;
          text_type = snd hint;
          blank = (strip line = '''');
          available = (if blank then available - 1 else available);
          needed = (if blank then needed - 1 else needed)
      in text_type = ''break''
         \<or> (text_type = ''raw'' \<and> needed > available)
         \<or> (autobreaks = ''yes'' \<and> needed > available
             \<and> (needed - available < 2 \<or> available < 2)))"

text \<open>One iteration of the loop: the state is \<open>(page_len, output)\<close>.\<close>

definition post_rendering_step ::
  "(nat \<rightharpoonup> int \<times> string) \<Rightarrow> string \<Rightarrow> nat \<Rightarrow> string \<Rightarrow> int \<times> string list \<Rightarrow> int \<times> string list"
where
  "post_rendering_step hints autobreaks line_num line st =
     (let st1 = (case hints line_num of
                   None \<Rightarrow> st
                 | Some hint \<Rightarrow>
                     if hint_break autobreaks (fst st) line hint
                     then (0, snd st @ [''.bp''])
                     else st);
          st2 = (if fst st1 + 1 > 55 then (0, snd st1 @ [''.bp'']) else st1)
      in (fst st2 + 1, snd st2 @ [line]))"

fun post_rendering_loop ::
  "(nat \<rightharpoonup> int \<times> string) \<Rightarrow> string \<Rightarrow> nat \<Rightarrow> string list \<Rightarrow> int \<times> string list \<Rightarrow> int \<times> string list"
where
  "post_rendering_loop hints autobreaks line_num [] st = st"
| "post_rendering_loop hints autobreaks line_num (line # rest) st =
     post_rendering_loop hints autobreaks (Suc line_num) rest
       (post_rendering_step hints autobreaks line_num line st)"

definition post_rendering :: "writer \<Rightarrow> writer" where
  "post_rendering w =
     w\<lparr>output := snd (post_rendering_loop (break_hints w) (pis_autobreaks w) 0 (buf w)
                        (0, output w))\<rparr>"

text \<open>The page segments of an output: the runs of lines between two break commands, and
  between the start or the end and the nearest break command.\<close>

fun page_segments :: "string list \<Rightarrow> string list list" where
  "page_segments [] = [[]]"
| "page_segments (l # ls) =
     (if l = ''.bp'' then [] # page_segments ls
      else (case page_segments ls of
              [] \<Rightarrow> [[l]]
            | seg # segs \<Rightarrow> (l # seg) # segs))"

subsection \<open>The block renderer (lines 83--145)\<close>

text \<open>
  Modelled from the spec: \<^verbatim>\<open>_lb\<close> of the base text writer, which is not in this file.
  It renders the leading blank line of a block (spec, section 4.3, step 1): one line, the
  given text or the empty string, appended to the buffer it is given.
\<close>

definition u_lb :: "string \<Rightarrow> string list \<Rightarrow> string list" where
  "u_lb text lines = lines @ [text]"

text \<open>
  Modelled from the spec: the wrapping collaborator \<^verbatim>\<open>self.wrapper.wrap\<close> on a text that
  fits the width, which it returns as a single display line (spec, section 8, last
  scenario); an empty text gives no line. \<^verbatim>\<open>write_text\<close> below takes the wrapper as a
  parameter; this one is for the concrete calls.
\<close>

definition wrap_narrow :: "string \<Rightarrow> bool \<Rightarrow> bool \<Rightarrow> string list" where
  "wrap_narrow text fix_doublespace fix_sentence_endings = (if text = [] then [] else [text])"

text \<open>The keyword arguments of \<^verbatim>\<open>write_text\<close> with their defaults (lines 83--86);
  \<^verbatim>\<open>wrap_urls\<close> and \<^verbatim>\<open>source_line\<close> are never read. \<open>buf_arg\<close> is \<^verbatim>\<open>buf\<close>, a list of the
  caller's other than \<^verbatim>\<open>self.buf\<close>, and \<open>strip_arg\<close> is \<^verbatim>\<open>strip\<close>.\<close>

record text_args =
  indent :: int
  sub_indent :: int
  bullet :: string
  align :: string
  leading_blankline :: bool
  buf_arg :: "string list option"
  strip_arg :: bool
  edit :: bool
  fix_sentence_endings :: bool

definition text_defaults :: text_args where
  "text_defaults =
     \<lparr>indent = 0, sub_indent = 0, bullet = [], align = ''left'', leading_blankline = False,
      buf_arg = None, strip_arg = True, edit = False, fix_sentence_endings = True\<rparr>"

text \<open>Lines 121--123: every wrapped line is escaped when it starts with a sentinel;
  \<^verbatim>\<open>par[i][0]\<close> raises on an empty line.\<close>

fun escape_lines :: "string list \<Rightarrow> error + string list" where
  "escape_lines [] = Inr []"
| "escape_lines (l # ls) =
     (case l of
        [] \<Rightarrow> Inl IndexError
      | c # _ \<Rightarrow>
          (case (if c \<in> set nroff_linestart_meta then nroff_escape_linestart l else Some l) of
             None \<Rightarrow> Inl NoneLine
           | Some l' \<Rightarrow>
               (case escape_lines ls of
                  Inl e \<Rightarrow> Inl e
                | Inr ls' \<Rightarrow> Inr (l' # ls'))))"

text \<open>Line 125: \<^verbatim>\<open>sub_indent and indent + sub_indent or indent + len(bullet)\<close>. The
  first operand of \<^verbatim>\<open>or\<close> is taken when it is not zero.\<close>

definition full_indent :: "int \<Rightarrow> int \<Rightarrow> string \<Rightarrow> int" where
  "full_indent ind sub bul =
     (if sub \<noteq> 0 \<and> ind + sub \<noteq> 0 then ind + sub else ind + int (length bul))"

text \<open>The local \<^verbatim>\<open>buf\<close> after lines 93--94: \<^verbatim>\<open>self.buf\<close> itself (\<open>None\<close>) unless the caller
  gave a list that is not empty. Appending to it changes either the writer or that list.\<close>

definition buf_target :: "string list option \<Rightarrow> string list option" where
  "buf_target b = (case b of None \<Rightarrow> None | Some ls \<Rightarrow> if ls = [] then None else Some ls)"

definition extend_target ::
  "string list \<Rightarrow> writer \<times> string list option \<Rightarrow> writer \<times> string list option"
where
  "extend_target ls st =
     (case snd st of
        None \<Rightarrow> ((fst st)\<lparr>buf := buf (fst st) @ ls\<rparr>, None)
      | Some tmp \<Rightarrow> (fst st, Some (tmp @ ls)))"

text \<open>Lines 99--105.\<close>

definition write_text_blankline ::
  "text_args \<Rightarrow> writer \<times> string list option \<Rightarrow> writer \<times> string list option"
where
  "write_text_blankline a st =
     (if leading_blankline a
      then (if edit a \<and> pis_editing (fst st) = ''yes''
            then (let w = (fst st)\<lparr>edit_counter := edit_counter (fst st) + 1\<rparr>
                  in extend_target (u_lb (''<'' @ str_int (edit_counter w) @ ''>'') []) (w, snd st))
            else extend_target (u_lb [] []) st)
      else st)"

text \<open>Lines 107--131: the result is the local \<^verbatim>\<open>string\<close>, the paragraph and the writer.\<close>

definition write_text_par ::
  "(string \<Rightarrow> bool \<Rightarrow> bool \<Rightarrow> string list) \<Rightarrow> string \<Rightarrow> text_args \<Rightarrow> writer
     \<Rightarrow> error + string \<times> string list \<times> writer"
where
  "write_text_par wrap string a w =
     (if string \<noteq> []
      then (let string1 = (if strip_arg a then lstrip string else string);
                bulleted = (bullet a \<noteq> [] \<and> length (strip (bullet a)) > 0);
                string2 = (if bulleted then bullet a @ string1 else string1);
                fix_doublespace = (\<not> bulleted)
            in case escape_lines (wrap string2 fix_doublespace (fix_sentence_endings a)) of
                 Inl e \<Rightarrow> Inl e
               | Inr par \<Rightarrow>
                   Inr (string2, par,
                     if align a = ''center''
                     then write_nroff (''.ce '' @ str_int (int (length par))) w
                     else u_indent (full_indent (indent a) (sub_indent a) (bullet a)) w))
      else Inr (string, [], w))"

text \<open>The whole call. The result holds the writer and the caller's list when one was
  given and used.\<close>

definition write_text ::
  "(string \<Rightarrow> bool \<Rightarrow> bool \<Rightarrow> string list) \<Rightarrow> string \<Rightarrow> text_args \<Rightarrow> writer
     \<Rightarrow> error + writer \<times> string list option"
where
  "write_text wrap string a w =
     (let begin = length (buf w);
          st1 = write_text_blankline a (w, buf_target (buf_arg a))
      in case write_text_par wrap string a (fst st1) of
           Inl e \<Rightarrow> Inl e
         | Inr (string2, par, w2) \<Rightarrow>
             (let bulleted = (bullet a \<noteq> [] \<and> length (strip (bullet a)) > 0);
                  w3 = (if bulleted then write_nroff (''.ti '' @ str_int (indent a)) w2 else w2);
                  par2 = (if bulleted \<and> string2 = [] then par @ [bullet a] else par);
                  st4 = extend_target par2 (w3, snd st1);
                  end = length (buf (fst st4))
              in Inr ((fst st4)\<lparr>break_hints :=
                         (break_hints (fst st4))(begin \<mapsto> (int end - int begin, ''txt''))\<rparr>,
                      snd st4)))"

subsection \<open>The table of contents (lines 154--163)\<close>

definition u_post_write_toc :: "string list \<Rightarrow> writer \<Rightarrow> string list" where
  "u_post_write_toc tmpbuf w =
     tmpbuf @ [''.ti 0'', ''Table of Contents'', [], ''.in 3'', ''.nf''] @ toc w @ [''.fi'']"

subsection \<open>Headings (lines 213--222)\<close>

definition write_heading :: "string \<Rightarrow> string \<Rightarrow> writer \<Rightarrow> error + writer" where
  "write_heading text bullet0 w =
     (let w1 = w\<lparr>buf := u_lb [] (buf w)\<rparr>;
          bullet1 = (if bullet0 \<noteq> [] then bullet0 @ ''  '' else bullet0);
          w2 = (if int (length (bullet1 @ text)) > width w1 - 3
                then write_nroff (''.in '' @ str_int (int (length bullet1))) w1
                else w1)
      in write_line (bullet1 @ text) (write_nroff ''.ti 0'' w2))"

text \<open>The indent commands of a buffer, in order.\<close>

definition indent_commands :: "string list \<Rightarrow> string list" where
  "indent_commands lines = filter (\<lambda>l. startswith l ''.in '') lines"

subsection \<open>Cross-references (lines 165--188)\<close>

text \<open>An \<^verbatim>\<open>xref\<close> element and an indexed item, with the attributes that are read. The
  lookup \<^verbatim>\<open>_getItemByAnchor\<close> belongs to the base writer and is a parameter.\<close>

record xref =
  attrib :: "string \<rightharpoonup> string"
  "text" :: "string option"

record item =
  counter :: string
  title :: string
  autoName :: string

definition attrib_get :: "(string \<rightharpoonup> string) \<Rightarrow> string \<Rightarrow> string \<Rightarrow> string" where
  "attrib_get m k d = (case m k of None \<Rightarrow> d | Some v \<Rightarrow> v)"

text \<open>Lines 167--177.\<close>

definition xref_target_text :: "(string \<Rightarrow> item option) \<Rightarrow> xref \<Rightarrow> writer \<Rightarrow> string" where
  "xref_target_text getItemByAnchor x w =
     (let target = attrib_get (attrib x) ''target'' [];
          format = attrib_get (attrib x) ''format'' (defaults_xref_format w)
      in case getItemByAnchor target of
           None \<Rightarrow> ''['' @ target @ '']''
         | Some it \<Rightarrow>
             if format = ''none'' then ''['' @ target @ '']''
             else if format = ''counter'' then counter it
             else if format = ''title'' then title it
             else autoName it)"

text \<open>Lines 178--188.\<close>

definition u_expand_xref :: "(string \<Rightarrow> item option) \<Rightarrow> xref \<Rightarrow> writer \<Rightarrow> string" where
  "u_expand_xref getItemByAnchor x w =
     (let target_text = xref_target_text getItemByAnchor x w;
          punct = (CHR ''.'' \<in> set target_text \<or> CHR ''-'' \<in> set target_text)
      in case (case text x of None \<Rightarrow> None | Some t \<Rightarrow> if t = [] then None else Some t) of
           Some t \<Rightarrow>
             rstrip t @ '' '' @
               (if \<not> startswith target_text ''['' then ''('' @ target_text @ '')''
                else if punct then backslash # CHR ''%'' # target_text
                else target_text)
         | None \<Rightarrow>
             if punct then backslash # CHR ''%'' # target_text else target_text)"

text \<open>The invariant of the loop: the counter stays within a page, the lines after the last
  break command are no more than the counter, and no segment is over a page long.\<close>

definition page_inv :: "int \<times> string list \<Rightarrow> bool" where
  "page_inv st =
     (0 \<le> fst st \<and> fst st \<le> 55 \<and>
      int (length (last (page_segments (snd st)))) \<le> fst st \<and>
      (\<forall>seg \<in> set (page_segments (snd st)). int (length seg) \<le> 55))"

subsection \<open>A fresh writer (lines 48--58)\<close>

text \<open>
  Modelled from the spec: the constructor of the base writer, which is not in this file.
  Buffer, ledger and output start empty (spec, section 3, Lifecycle); the width is the
  default of line 48 and \<^verbatim>\<open>curr_indent\<close> the 0 of line 51; the settings are on/off flags
  (section 6), taken here as automatic breaks on and editing marks off.
\<close>

definition new_writer :: writer where
  "new_writer =
     \<lparr>buf = [], curr_indent = 0, break_hints = Map.empty, output = [], edit_counter = 0,
      width = 72, toc = [], pis_editing = ''no'', pis_autobreaks = ''yes'',
      defaults_xref_format = ''default''\<rparr>"

section \<open>Properties\<close>

subsection \<open>Escaping\<close>

lemma nroff_escape_linestart_meta:
  "c \<in> set nroff_linestart_meta \<Longrightarrow> nroff_escape_linestart (c # s) \<noteq> None"
  by (auto simp: nroff_linestart_meta_def nroff_escape_linestart_def startswith_def)

text \<open>
  C10. \<^verbatim>\<open>write_line\<close> fails on the empty string, where \<^verbatim>\<open>string[0]\<close> raises. On every
  other string it appends exactly one line: the string after a backslash when it starts
  with an apostrophe, after a backslash and an ampersand when it starts with a full stop,
  and the string itself otherwise.
\<close>

theorem write_line_partial:
  "write_line [] w = Inl IndexError \<and>
   (string \<noteq> [] \<longrightarrow>
      write_line string w =
        Inr (w\<lparr>buf := buf w @
               [if hd string = apostrophe then backslash # string
                else if hd string = CHR ''.'' then backslash # CHR ''&'' # string
                else string]\<rparr>))"
  by (cases string)
     (auto simp: write_line_def nroff_linestart_meta_def nroff_escape_linestart_def
        startswith_def)

theorem write_line_partial_witness:
  "write_line [] new_writer = Inl IndexError \<and>
   ''.sp'' \<noteq> [] \<and>
   write_line ''.sp'' new_writer = Inr (new_writer\<lparr>buf := [backslash # ''&.sp'']\<rparr>)"
  using write_line_partial [of new_writer "''.sp''"]
  by (simp add: new_writer_def)

subsection \<open>Pagination: what one iteration does\<close>

lemma post_rendering_step_cases:
  "post_rendering_step hints ab i l (pl, out) = (pl + 1, out @ [l]) \<or>
   post_rendering_step hints ab i l (pl, out) = (1, out @ [''.bp'', l])"
  by (simp add: post_rendering_step_def Let_def split: option.split)

lemma post_rendering_step_bound:
  "fst (post_rendering_step hints ab i l (pl, out)) \<le> 55"
  by (simp add: post_rendering_step_def Let_def split: option.split)

subsection \<open>Pagination: page segments\<close>

lemma page_segments_ne [simp]: "page_segments ls \<noteq> []"
  by (induction ls) (auto split: list.split)

lemma page_segments_snoc_bp:
  "page_segments (ls @ [''.bp'']) = page_segments ls @ [[]]"
  by (induction ls) (auto split: list.split)

lemma page_segments_snoc:
  "l \<noteq> ''.bp'' \<Longrightarrow>
   page_segments (ls @ [l]) = butlast (page_segments ls) @ [last (page_segments ls) @ [l]]"
proof (induction ls)
  case Nil
  then show ?case by simp
next
  case (Cons a ls)
  then show ?case
    by (cases "page_segments ls") (auto split: list.split)
qed

lemma page_inv_snoc:
  assumes "page_inv (pl, out)" and "pl + 1 \<le> 55"
  shows "page_inv (pl + 1, out @ [l])"
proof (cases "l = ''.bp''")
  case True
  with assms show ?thesis
    by (auto simp: page_inv_def page_segments_snoc_bp)
next
  case False
  have "set (butlast (page_segments out)) \<subseteq> set (page_segments out)"
    by (auto dest: in_set_butlastD)
  with False assms show ?thesis
    by (auto simp: page_inv_def page_segments_snoc)
qed

lemma page_inv_break:
  assumes "page_inv (pl, out)"
  shows "page_inv (0, out @ [''.bp''])"
  using assms by (auto simp: page_inv_def page_segments_snoc_bp)

lemma page_inv_step:
  assumes "page_inv (pl, out)"
  shows "page_inv (post_rendering_step hints ab i l (pl, out))"
proof -
  consider (plain) "post_rendering_step hints ab i l (pl, out) = (pl + 1, out @ [l])"
    | (break) "post_rendering_step hints ab i l (pl, out) = (1, out @ [''.bp'', l])"
    using post_rendering_step_cases by blast
  then show ?thesis
  proof cases
    case plain
    with post_rendering_step_bound [of hints ab i l pl out] have "pl + 1 \<le> 55" by simp
    with assms plain show ?thesis by (simp add: page_inv_snoc)
  next
    case break
    from page_inv_snoc [OF page_inv_break [OF assms], of l]
    have "page_inv (1, (out @ [''.bp'']) @ [l])" by simp
    with break show ?thesis by simp
  qed
qed

lemma page_inv_loop:
  "page_inv st \<Longrightarrow> page_inv (post_rendering_loop hints ab i ls st)"
proof (induction ls arbitrary: i st)
  case Nil
  then show ?case by simp
next
  case (Cons l ls)
  obtain pl out where st: "st = (pl, out)" by (cases st)
  with Cons.prems have "page_inv (post_rendering_step hints ab i l st)"
    by (simp add: page_inv_step)
  then show ?case using Cons.IH by simp
qed

text \<open>
  C1. An iteration either appends the line and counts it, or appends a break command and
  the line and leaves the counter at 1: the break resets the counter to 0 and is not
  counted itself. After any number of lines the counter is between 0 and
  \<open>page_maxlen\<close> = 55. Started on an empty output, the pass leaves at most \<open>page_maxlen\<close>
  lines in every page segment, for every buffer and every ledger.
\<close>

theorem post_rendering_page_capacity:
  "(post_rendering_step hints ab i l (pl, out) = (pl + 1, out @ [l]) \<or>
    post_rendering_step hints ab i l (pl, out) = (1, out @ [''.bp'', l])) \<and>
   0 \<le> fst (post_rendering_loop hints ab 0 lines (0, [])) \<and>
   fst (post_rendering_loop hints ab 0 lines (0, [])) \<le> page_maxlen \<and>
   (output w = [] \<longrightarrow>
      (\<forall>seg \<in> set (page_segments (output (post_rendering w))).
          int (length seg) \<le> page_maxlen))"
proof -
  have start: "page_inv (0, [])" by (simp add: page_inv_def)
  then have "page_inv (post_rendering_loop hints ab 0 lines (0, []))"
    by (rule page_inv_loop)
  then have counter: "0 \<le> fst (post_rendering_loop hints ab 0 lines (0, []))"
    "fst (post_rendering_loop hints ab 0 lines (0, [])) \<le> page_maxlen"
    by (simp_all add: page_inv_def page_maxlen_def)
  from start
  have "page_inv (post_rendering_loop (break_hints w) (pis_autobreaks w) 0 (buf w) (0, []))"
    by (rule page_inv_loop)
  then have "output w = [] \<longrightarrow>
      (\<forall>seg \<in> set (page_segments (output (post_rendering w))).
          int (length seg) \<le> page_maxlen)"
    by (auto simp: page_inv_def post_rendering_def page_maxlen_def)
  with post_rendering_step_cases [of hints ab i l pl out] counter show ?thesis
    by (intro conjI) assumption+
qed

theorem post_rendering_page_capacity_witness:
  "output (new_writer\<lparr>buf := replicate 56 ''x''\<rparr>) = [] \<and>
   output (post_rendering (new_writer\<lparr>buf := replicate 56 ''x''\<rparr>)) =
     replicate 55 ''x'' @ [''.bp'', ''x''] \<and>
   replicate 55 ''x''
     \<in> set (page_segments (output (post_rendering (new_writer\<lparr>buf := replicate 56 ''x''\<rparr>)))) \<and>
   int (length (replicate 55 ''x'')) \<le> page_maxlen"
proof -
  let ?w = "new_writer\<lparr>buf := replicate 56 ''x''\<rparr>"
  have start: "output ?w = []" by (simp add: new_writer_def)
  have out: "output (post_rendering ?w) = replicate 55 ''x'' @ [''.bp'', ''x'']"
    by code_simp
  have segs: "page_segments (replicate 55 ''x'' @ [''.bp'', ''x'']) = [replicate 55 ''x'', [''x'']]"
    by code_simp
  from out segs
  have mem: "replicate 55 ''x'' \<in> set (page_segments (output (post_rendering ?w)))"
    by simp
  from post_rendering_page_capacity [where w = ?w] start mem
  have "int (length (replicate 55 ''x'')) \<le> page_maxlen" by blast
  with start out mem show ?thesis by blast
qed

subsection \<open>Pagination: every line once, in order\<close>

lemma post_rendering_loop_shuffle:
  "\<exists>pl' new n. post_rendering_loop hints ab i ls (pl, out) = (pl', out @ new) \<and>
      new \<in> shuffles ls (replicate n ''.bp'')"
proof (induction ls arbitrary: i pl out)
  case Nil
  have "post_rendering_loop hints ab i [] (pl, out) = (pl, out @ [])" by simp
  moreover have "[] \<in> shuffles [] (replicate 0 ''.bp'')" by simp
  ultimately show ?case by blast
next
  case (Cons l ls)
  consider (plain) "post_rendering_step hints ab i l (pl, out) = (pl + 1, out @ [l])"
    | (break) "post_rendering_step hints ab i l (pl, out) = (1, out @ [''.bp'', l])"
    using post_rendering_step_cases by blast
  then show ?case
  proof cases
    case plain
    from Cons.IH [of "Suc i" "pl + 1" "out @ [l]"] obtain pl' new n where
      r: "post_rendering_loop hints ab (Suc i) ls (pl + 1, out @ [l]) = (pl', (out @ [l]) @ new)"
      and s: "new \<in> shuffles ls (replicate n ''.bp'')" by blast
    from s have "l # new \<in> shuffles (l # ls) (replicate n ''.bp'')"
      by (rule Cons_in_shuffles_leftI)
    moreover from r plain
    have "post_rendering_loop hints ab i (l # ls) (pl, out) = (pl', out @ (l # new))" by simp
    ultimately show ?thesis by blast
  next
    case break
    from Cons.IH [of "Suc i" 1 "out @ [''.bp'', l]"] obtain pl' new n where
      r: "post_rendering_loop hints ab (Suc i) ls (1, out @ [''.bp'', l]) =
            (pl', (out @ [''.bp'', l]) @ new)"
      and s: "new \<in> shuffles ls (replicate n ''.bp'')" by blast
    from s have "l # new \<in> shuffles (l # ls) (replicate n ''.bp'')"
      by (rule Cons_in_shuffles_leftI)
    then have "''.bp'' # l # new \<in> shuffles (l # ls) (''.bp'' # replicate n ''.bp'')"
      by (rule Cons_in_shuffles_rightI)
    then have "''.bp'' # l # new \<in> shuffles (l # ls) (replicate (Suc n) ''.bp'')"
      by (simp only: replicate_Suc)
    moreover from r break
    have "post_rendering_loop hints ab i (l # ls) (pl, out) = (pl', out @ (''.bp'' # l # new))"
      by simp
    ultimately show ?thesis by blast
  qed
qed

text \<open>
  C2. The pass is a recursion over the buffer with no failing branch, so it returns for
  every buffer and every ledger, whatever the hints say. What it appends to the output is
  an interleaving of the buffer with a number of break commands: every buffer line once,
  in the buffer's order, and nothing else but \<^verbatim>\<open>.bp\<close> lines.
\<close>

theorem post_rendering_total:
  "\<exists>new n. output (post_rendering w) = output w @ new \<and>
      new \<in> shuffles (buf w) (replicate n ''.bp'')"
proof -
  from post_rendering_loop_shuffle [of "break_hints w" "pis_autobreaks w" 0 "buf w" 0 "output w"]
  obtain pl' new n where
    "post_rendering_loop (break_hints w) (pis_autobreaks w) 0 (buf w) (0, output w) =
       (pl', output w @ new)"
    and "new \<in> shuffles (buf w) (replicate n ''.bp'')" by blast
  then show ?thesis by (auto simp: post_rendering_def)
qed

subsection \<open>Pagination: the hint's decision\<close>

lemma post_rendering_step_break:
  "hints i = Some hint \<Longrightarrow> hint_break ab pl line hint \<Longrightarrow>
   post_rendering_step hints ab i line (pl, out) = (1, out @ [''.bp'', line])"
  by (simp add: post_rendering_step_def)

lemma post_rendering_step_no_break:
  "hints i = Some hint \<Longrightarrow> \<not> hint_break ab pl line hint \<Longrightarrow> pl < 55 \<Longrightarrow>
   post_rendering_step hints ab i line (pl, out) = (pl + 1, out @ [line])"
  by (simp add: post_rendering_step_def)

lemma post_rendering_step_no_hint:
  "hints i = None \<Longrightarrow> pl < 55 \<Longrightarrow>
   post_rendering_step hints ab i line (pl, out) = (pl + 1, out @ [line])"
  by (simp add: post_rendering_step_def)

lemma hint_break_txt:
  "hint_break ''yes'' page_len line (needed, ''txt'') \<longleftrightarrow>
     (let blank = (strip line = '''');
          available = page_maxlen - page_len - (if blank then 1 else 0);
          needed' = needed - (if blank then 1 else 0)
      in needed' > available \<and> (needed' - available < 2 \<or> available < 2))"
  by (auto simp: hint_break_def Let_def)

lemma post_rendering_step_full:
  "hints i = Some hint \<Longrightarrow> \<not> hint_break ab pl line hint \<Longrightarrow> pl = 55 \<Longrightarrow>
   post_rendering_step hints ab i line (pl, out) = (1, out @ [''.bp'', line])"
  by (simp add: post_rendering_step_def)

lemma post_rendering_loop_append:
  "post_rendering_loop hints ab i (xs @ ys) st =
   post_rendering_loop hints ab (i + length xs) ys (post_rendering_loop hints ab i xs st)"
  by (induction xs arbitrary: i st) simp_all

text \<open>
  C3. Let index \<open>i\<close> of the buffer carry a \<^verbatim>\<open>txt\<close> hint of \<open>needed\<close> lines, with automatic
  breaks on, and let \<open>page_len\<close> be the counter when the pass reaches \<open>i\<close>. With
  \<open>available = page_maxlen - page_len\<close>, and both numbers one less when the line at \<open>i\<close> is
  blank, the hint's break is taken if and only if \<open>needed > available\<close> and
  (\<open>needed - available < 2\<close> or \<open>available < 2\<close>). The output of the pass then has \<^verbatim>\<open>.bp\<close>
  right before the line; when the break is not taken the line follows the output so far
  with nothing between, unless the page is full, where the capacity break of line 282
  stands there. With 5 lines available and 10 needed the break is not taken; with 1
  available it is.
\<close>

theorem heuristic_break_iff:
  assumes hint: "break_hints w i = Some (needed, ''txt'')"
    and inside: "i < length (buf w)"
    and auto: "pis_autobreaks w = ''yes''"
    and start: "output w = []"
  shows
    "(\<exists>page_len pre post.
        post_rendering_loop (break_hints w) (pis_autobreaks w) 0 (take i (buf w)) (0, []) =
          (page_len, pre) \<and>
        (let line = buf w ! i;
             blank = (strip line = []);
             available = page_maxlen - page_len - (if blank then 1 else 0);
             needed' = needed - (if blank then 1 else 0);
             wanted = (needed' > available \<and> (needed' - available < 2 \<or> available < 2))
         in hint_break (pis_autobreaks w) page_len line (needed, ''txt'') = wanted \<and>
            post_rendering_loop (break_hints w) (pis_autobreaks w) 0 (take (Suc i) (buf w))
                (0, []) =
              (if wanted \<or> page_len = page_maxlen then (1, pre @ [''.bp'', line])
               else (page_len + 1, pre @ [line])) \<and>
            output (post_rendering w) =
              (if wanted \<or> page_len = page_maxlen then pre @ [''.bp'', line] @ post
               else pre @ [line] @ post))) \<and>
     hint_break (pis_autobreaks w) pl0 l (n0, ''txt'') =
       (let blank = (strip l = []);
            available = page_maxlen - pl0 - (if blank then 1 else 0);
            needed' = n0 - (if blank then 1 else 0)
        in needed' > available \<and> (needed' - available < 2 \<or> available < 2)) \<and>
     \<not> hint_break (pis_autobreaks w) (page_maxlen - 5) l (10, ''txt'') \<and>
     hint_break (pis_autobreaks w) (page_maxlen - 1) l (10, ''txt'')"
proof -
  let ?H = "break_hints w" and ?A = "pis_autobreaks w"
  let ?before = "take i (buf w)" and ?line = "buf w ! i"
  let ?after = "drop (Suc i) (buf w)"
  let ?blank = "strip ?line = []"
  obtain pl pre where before: "post_rendering_loop ?H ?A 0 ?before (0, []) = (pl, pre)"
    by (cases "post_rendering_loop ?H ?A 0 ?before (0, [])")
  define wanted where "wanted \<longleftrightarrow>
      needed - (if ?blank then 1 else 0) > page_maxlen - pl - (if ?blank then 1 else 0) \<and>
      (needed - (if ?blank then 1 else 0) - (page_maxlen - pl - (if ?blank then 1 else 0)) < 2 \<or>
       page_maxlen - pl - (if ?blank then 1 else 0) < 2)"
  define brk where "brk \<longleftrightarrow> wanted \<or> pl = page_maxlen"
  have "page_inv (0, [])" by (simp add: page_inv_def)
  then have "page_inv (post_rendering_loop ?H ?A 0 ?before (0, []))" by (rule page_inv_loop)
  with before have pl: "0 \<le> pl" "pl \<le> 55" by (simp_all add: page_inv_def)
  have dec: "hint_break ?A pl ?line (needed, ''txt'') = wanted"
    unfolding wanted_def using auto by (simp only: hint_break_txt Let_def)
  have upto: "take (Suc i) (buf w) = ?before @ [?line]"
    using inside by (rule take_Suc_conv_app_nth)
  have lenb: "length ?before = i" using inside by simp
  have step: "post_rendering_step ?H ?A i ?line (pl, pre) =
      (if brk then (1, pre @ [''.bp'', ?line]) else (pl + 1, pre @ [?line]))"
  proof (cases wanted)
    case True
    with dec have "hint_break ?A pl ?line (needed, ''txt'')" by simp
    with hint have "post_rendering_step ?H ?A i ?line (pl, pre) = (1, pre @ [''.bp'', ?line])"
      by (rule post_rendering_step_break)
    with True show ?thesis by (simp add: brk_def)
  next
    case False
    with dec have no: "\<not> hint_break ?A pl ?line (needed, ''txt'')" by simp
    show ?thesis
    proof (cases "pl = 55")
      case True
      with hint no
      have "post_rendering_step ?H ?A i ?line (pl, pre) = (1, pre @ [''.bp'', ?line])"
        by (simp add: post_rendering_step_full)
      with True show ?thesis by (simp add: brk_def page_maxlen_def)
    next
      case ne: False
      with pl have "pl < 55" by simp
      with hint no
      have "post_rendering_step ?H ?A i ?line (pl, pre) = (pl + 1, pre @ [?line])"
        by (simp add: post_rendering_step_no_break)
      with False ne show ?thesis by (simp add: brk_def page_maxlen_def)
    qed
  qed
  have mid: "post_rendering_loop ?H ?A 0 (take (Suc i) (buf w)) (0, []) =
      (if brk then (1, pre @ [''.bp'', ?line]) else (pl + 1, pre @ [?line]))"
    unfolding upto post_rendering_loop_append before using step lenb by simp
  obtain pl2 out2 where st2:
    "post_rendering_loop ?H ?A 0 (take (Suc i) (buf w)) (0, []) = (pl2, out2)"
    by (cases "post_rendering_loop ?H ?A 0 (take (Suc i) (buf w)) (0, [])")
  from post_rendering_loop_shuffle [of ?H ?A "Suc i" ?after pl2 out2]
  obtain pl3 post where
    fin: "post_rendering_loop ?H ?A (Suc i) ?after (pl2, out2) = (pl3, out2 @ post)"
    by blast
  have "post_rendering_loop ?H ?A 0 (buf w) (0, []) = (pl3, out2 @ post)"
  proof -
    have "post_rendering_loop ?H ?A 0 (buf w) (0, []) =
        post_rendering_loop ?H ?A 0 (take (Suc i) (buf w) @ ?after) (0, [])"
      by simp
    also have "\<dots> = post_rendering_loop ?H ?A (0 + length (take (Suc i) (buf w))) ?after
        (post_rendering_loop ?H ?A 0 (take (Suc i) (buf w)) (0, []))"
      by (rule post_rendering_loop_append)
    also have "\<dots> = post_rendering_loop ?H ?A (Suc i) ?after (pl2, out2)"
      using st2 inside by simp
    finally show ?thesis using fin by simp
  qed
  then have out: "output (post_rendering w) = out2 @ post"
    using start by (simp add: post_rendering_def)
  from mid st2 have out2: "out2 = (if brk then pre @ [''.bp'', ?line] else pre @ [?line])"
    by (simp split: if_splits)
  from out out2 have outw: "output (post_rendering w) =
      (if brk then pre @ [''.bp'', ?line] @ post else pre @ [?line] @ post)"
    by simp
  have pass: "\<exists>page_len pre post.
        post_rendering_loop ?H ?A 0 ?before (0, []) = (page_len, pre) \<and>
        (let line = buf w ! i;
             blank = (strip line = []);
             available = page_maxlen - page_len - (if blank then 1 else 0);
             needed' = needed - (if blank then 1 else 0);
             wanted = (needed' > available \<and> (needed' - available < 2 \<or> available < 2))
         in hint_break ?A page_len line (needed, ''txt'') = wanted \<and>
            post_rendering_loop ?H ?A 0 (take (Suc i) (buf w)) (0, []) =
              (if wanted \<or> page_len = page_maxlen then (1, pre @ [''.bp'', line])
               else (page_len + 1, pre @ [line])) \<and>
            output (post_rendering w) =
              (if wanted \<or> page_len = page_maxlen then pre @ [''.bp'', line] @ post
               else pre @ [line] @ post))"
    using before dec mid outw unfolding brk_def wanted_def Let_def
    by (intro exI [of _ pl] exI [of _ pre] exI [of _ post] conjI) assumption+
  have a: "\<not> hint_break ?A (page_maxlen - 5) l (10, ''txt'')"
    using auto by (simp add: hint_break_def Let_def)
  have b: "hint_break ?A (page_maxlen - 1) l (10, ''txt'')"
    using auto by (simp add: hint_break_def Let_def)
  have c: "hint_break ?A pl0 l (n0, ''txt'') =
       (let blank = (strip l = []);
            available = page_maxlen - pl0 - (if blank then 1 else 0);
            needed' = n0 - (if blank then 1 else 0)
        in needed' > available \<and> (needed' - available < 2 \<or> available < 2))"
    using auto by (simp only: hint_break_txt)
  from pass c a b show ?thesis by (intro conjI)
qed

theorem heuristic_break_iff_witness:
  "break_hints (new_writer\<lparr>buf := replicate 53 ''x'' @ [[], ''y''],
        break_hints := [53 \<mapsto> (10, ''txt'')]\<rparr>) 53 = Some (10, ''txt'') \<and>
   strip (buf (new_writer\<lparr>buf := replicate 53 ''x'' @ [[], ''y''],
        break_hints := [53 \<mapsto> (10, ''txt'')]\<rparr>) ! 53) = [] \<and>
   output (post_rendering (new_writer\<lparr>buf := replicate 53 ''x'' @ [[], ''y''],
        break_hints := [53 \<mapsto> (10, ''txt'')]\<rparr>)) =
     replicate 53 ''x'' @ [''.bp'', [], ''y''] \<and>
   (\<exists>page_len pre post.
      post_rendering_loop [53 \<mapsto> (10, ''txt'')] ''yes'' 0 (replicate 53 ''x'') (0, []) =
        (page_len, pre) \<and>
      page_maxlen - page_len - 1 < 2 \<and>
      output (post_rendering (new_writer\<lparr>buf := replicate 53 ''x'' @ [[], ''y''],
        break_hints := [53 \<mapsto> (10, ''txt'')]\<rparr>)) = pre @ [''.bp'', []] @ post) \<and>
   output (post_rendering (new_writer\<lparr>buf := replicate 53 ''x'' @ [[CHR 0x1F], ''y''],
        break_hints := [53 \<mapsto> (10, ''txt'')]\<rparr>)) =
     replicate 53 ''x'' @ [''.bp'', [CHR 0x1F], ''y''] \<and>
   output (post_rendering (new_writer\<lparr>buf := replicate 53 ''x'' @ [''z'', ''y''],
        break_hints := [53 \<mapsto> (10, ''txt'')]\<rparr>)) =
     replicate 53 ''x'' @ [''z'', ''y''] \<and>
   output (post_rendering (new_writer\<lparr>buf := replicate 50 ''x'' @ [''z'', ''y''],
        break_hints := [50 \<mapsto> (10, ''txt'')]\<rparr>)) =
     replicate 50 ''x'' @ [''z'', ''y''] \<and>
   output (post_rendering (new_writer\<lparr>buf := replicate 54 ''x'' @ [''z'', ''y''],
        break_hints := [54 \<mapsto> (10, ''txt'')]\<rparr>)) =
     replicate 54 ''x'' @ [''.bp'', ''z'', ''y'']"
proof -
  let ?w = "new_writer\<lparr>buf := replicate 53 ''x'' @ [[], ''y''],
        break_hints := [53 \<mapsto> (10, ''txt'')]\<rparr>"
  have hint: "break_hints ?w 53 = Some (10, ''txt'')" by simp
  have inside: "53 < length (buf ?w)" by simp
  have auto: "pis_autobreaks ?w = ''yes''" by (simp add: new_writer_def)
  have start: "output ?w = []" by (simp add: new_writer_def)
  have line: "buf ?w ! 53 = []" by (simp add: nth_append)
  have blank: "strip (buf ?w ! 53) = []"
    unfolding line by (simp add: strip_def lstrip_def rstrip_def)
  have out: "output (post_rendering ?w) = replicate 53 ''x'' @ [''.bp'', [], ''y'']"
    by code_simp
  have pre: "post_rendering_loop [53 \<mapsto> (10, ''txt'')] ''yes'' 0 (replicate 53 ''x'') (0, []) =
      (53, replicate 53 ''x'')"
    by code_simp
  have out1F: "output (post_rendering (new_writer\<lparr>buf := replicate 53 ''x'' @ [[CHR 0x1F], ''y''],
        break_hints := [53 \<mapsto> (10, ''txt'')]\<rparr>)) =
     replicate 53 ''x'' @ [''.bp'', [CHR 0x1F], ''y'']"
    by code_simp
  have outz: "output (post_rendering (new_writer\<lparr>buf := replicate 53 ''x'' @ [''z'', ''y''],
        break_hints := [53 \<mapsto> (10, ''txt'')]\<rparr>)) =
     replicate 53 ''x'' @ [''z'', ''y'']"
    by code_simp
  have out50: "output (post_rendering (new_writer\<lparr>buf := replicate 50 ''x'' @ [''z'', ''y''],
        break_hints := [50 \<mapsto> (10, ''txt'')]\<rparr>)) =
     replicate 50 ''x'' @ [''z'', ''y'']"
    by code_simp
  have out54: "output (post_rendering (new_writer\<lparr>buf := replicate 54 ''x'' @ [''z'', ''y''],
        break_hints := [54 \<mapsto> (10, ''txt'')]\<rparr>)) =
     replicate 54 ''x'' @ [''.bp'', ''z'', ''y'']"
    by code_simp
  from heuristic_break_iff [OF hint inside auto start]
  obtain page_len pre' post where
    a: "post_rendering_loop (break_hints ?w) (pis_autobreaks ?w) 0 (take 53 (buf ?w)) (0, []) =
       (page_len, pre')"
    and c: "(let line = buf ?w ! 53;
             blank = (strip line = []);
             available = page_maxlen - page_len - (if blank then 1 else 0);
             needed' = 10 - (if blank then 1 else 0);
             wanted = (needed' > available \<and> (needed' - available < 2 \<or> available < 2))
         in hint_break (pis_autobreaks ?w) page_len line (10, ''txt'') = wanted \<and>
            post_rendering_loop (break_hints ?w) (pis_autobreaks ?w) 0 (take (Suc 53) (buf ?w))
                (0, []) =
              (if wanted \<or> page_len = page_maxlen then (1, pre' @ [''.bp'', line])
               else (page_len + 1, pre' @ [line])) \<and>
            output (post_rendering ?w) =
              (if wanted \<or> page_len = page_maxlen then pre' @ [''.bp'', line] @ post
               else pre' @ [line] @ post))"
    by blast
  from a pre have pl: "page_len = 53" "pre' = replicate 53 ''x''"
    by (simp_all add: new_writer_def)
  then have avail: "page_maxlen - page_len - 1 < 2" by (simp add: page_maxlen_def)
  from c have "output (post_rendering ?w) = pre' @ [''.bp'', []] @ post"
    unfolding Let_def line pl by (simp add: page_maxlen_def strip_def lstrip_def rstrip_def)
  with a avail have ex: "\<exists>page_len pre post.
      post_rendering_loop [53 \<mapsto> (10, ''txt'')] ''yes'' 0 (replicate 53 ''x'') (0, []) =
        (page_len, pre) \<and>
      page_maxlen - page_len - 1 < 2 \<and>
      output (post_rendering ?w) = pre @ [''.bp'', []] @ post"
    by (simp add: new_writer_def)
  from hint blank out ex out1F outz out50 out54 show ?thesis by (intro conjI)
qed

subsection \<open>Pagination: raw blocks\<close>

lemma hint_break_raw:
  "hint_break ab pl line (n, ''raw'') \<longleftrightarrow> n > page_maxlen - pl"
  by (auto simp: hint_break_def Let_def)

lemma post_rendering_loop_no_hints:
  "(\<And>j. i \<le> j \<Longrightarrow> j < i + length ls \<Longrightarrow> hints j = None) \<Longrightarrow>
   pl + int (length ls) \<le> 55 \<Longrightarrow>
   post_rendering_loop hints ab i ls (pl, out) = (pl + int (length ls), out @ ls)"
proof (induction ls arbitrary: i pl out)
  case Nil
  then show ?case by simp
next
  case (Cons l ls)
  have "hints i = None" using Cons.prems(1) [of i] by simp
  moreover have "pl < 55" using Cons.prems(2) by simp
  ultimately have step: "post_rendering_step hints ab i l (pl, out) = (pl + 1, out @ [l])"
    by (rule post_rendering_step_no_hint)
  have "post_rendering_loop hints ab (Suc i) ls (pl + 1, out @ [l]) =
          (pl + 1 + int (length ls), (out @ [l]) @ ls)"
  proof (rule Cons.IH)
    fix j assume "Suc i \<le> j" and "j < Suc i + length ls"
    then show "hints j = None" using Cons.prems(1) [of j] by simp
  next
    show "pl + 1 + int (length ls) \<le> 55" using Cons.prems(2) by simp
  qed
  with step show ?case by simp
qed

lemma post_rendering_loop_raw_block:
  assumes hint: "hints i = Some (n, ''raw'')"
    and len: "int (length block) = n" and n: "1 \<le> n" "n \<le> page_maxlen"
    and interior: "\<And>j. i < j \<Longrightarrow> j < i + length block \<Longrightarrow> hints j = None"
    and pl: "0 \<le> pl" "pl \<le> 55"
  shows "post_rendering_loop hints ab i block (pl, out) =
           (if n > page_maxlen - pl then (n, out @ [''.bp''] @ block)
            else (pl + n, out @ block))"
proof -
  from len n obtain b bs where block: "block = b # bs" by (cases block) auto
  have rest: "\<And>j. Suc i \<le> j \<Longrightarrow> j < Suc i + length bs \<Longrightarrow> hints j = None"
    using interior block by simp
  show ?thesis
  proof (cases "n > page_maxlen - pl")
    case True
    then have "hint_break ab pl b (n, ''raw'')" by (simp add: hint_break_raw)
    with hint have "post_rendering_step hints ab i b (pl, out) = (1, out @ [''.bp'', b])"
      by (rule post_rendering_step_break)
    moreover have "post_rendering_loop hints ab (Suc i) bs (1, out @ [''.bp'', b]) =
        (1 + int (length bs), (out @ [''.bp'', b]) @ bs)"
      using rest
    proof (rule post_rendering_loop_no_hints)
      show "1 + int (length bs) \<le> 55" using len n block by (simp add: page_maxlen_def)
    qed
    ultimately show ?thesis using True block len by simp
  next
    case False
    then have "\<not> hint_break ab pl b (n, ''raw'')" by (simp add: hint_break_raw)
    moreover from False n have "pl < 55" by (simp add: page_maxlen_def)
    ultimately have "post_rendering_step hints ab i b (pl, out) = (pl + 1, out @ [b])"
      using hint by (simp add: post_rendering_step_no_break)
    moreover have "post_rendering_loop hints ab (Suc i) bs (pl + 1, out @ [b]) =
        (pl + 1 + int (length bs), (out @ [b]) @ bs)"
      using rest
    proof (rule post_rendering_loop_no_hints)
      show "pl + 1 + int (length bs) \<le> 55"
        using False len block by (simp add: page_maxlen_def)
    qed
    ultimately show ?thesis using False block len by simp
  qed
qed

text \<open>
  C4. A raw block: a \<^verbatim>\<open>raw\<close> hint at index \<open>i\<close> that records \<open>n\<close> lines, from 1 to a page's
  worth, all of them in the buffer, with no other hint inside the block. Let \<open>page_len\<close> be
  the counter when the pass reaches \<open>i\<close>. A break command is put right before the block
  exactly when \<open>n > page_maxlen - page_len\<close>; the \<open>n\<close> lines then follow one another in the
  output with nothing between them, and the counter after the block is \<open>n\<close> or
  \<open>page_len + n\<close>, within the page.
\<close>

theorem raw_block_contiguous:
  assumes hint: "break_hints w i = Some (n, ''raw'')"
    and n: "1 \<le> n" "n \<le> page_maxlen"
    and inside: "i + nat n \<le> length (buf w)"
    and interior: "\<forall>j. i < j \<and> j < i + nat n \<longrightarrow> break_hints w j = None"
    and start: "output w = []"
  shows "\<exists>page_len pre post.
     post_rendering_loop (break_hints w) (pis_autobreaks w) 0 (take i (buf w)) (0, []) =
       (page_len, pre) \<and>
     post_rendering_loop (break_hints w) (pis_autobreaks w) 0 (take (i + nat n) (buf w)) (0, []) =
       (if n > page_maxlen - page_len
        then (n, pre @ [''.bp''] @ take (nat n) (drop i (buf w)))
        else (page_len + n, pre @ take (nat n) (drop i (buf w)))) \<and>
     output (post_rendering w) =
       (if n > page_maxlen - page_len
        then pre @ [''.bp''] @ take (nat n) (drop i (buf w)) @ post
        else pre @ take (nat n) (drop i (buf w)) @ post)"
proof -
  let ?H = "break_hints w" and ?A = "pis_autobreaks w"
  let ?before = "take i (buf w)" and ?block = "take (nat n) (drop i (buf w))"
  let ?after = "drop (i + nat n) (buf w)"
  obtain pl pre where before: "post_rendering_loop ?H ?A 0 ?before (0, []) = (pl, pre)"
    by (cases "post_rendering_loop ?H ?A 0 ?before (0, [])")
  have "page_inv (0, [])" by (simp add: page_inv_def)
  then have "page_inv (post_rendering_loop ?H ?A 0 ?before (0, []))" by (rule page_inv_loop)
  with before have pl: "0 \<le> pl" "pl \<le> 55" by (simp_all add: page_inv_def)
  have lenb: "length ?before = i" using inside by simp
  have lenk: "int (length ?block) = n" using inside n by simp
  have upto: "take (i + nat n) (buf w) = ?before @ ?block" by (simp add: take_add)
  have whole: "buf w = (?before @ ?block) @ ?after"
    by (metis upto append_take_drop_id)
  have block: "post_rendering_loop ?H ?A i ?block (pl, pre) =
      (if n > page_maxlen - pl then (n, pre @ [''.bp''] @ ?block) else (pl + n, pre @ ?block))"
    using hint lenk n
  proof (rule post_rendering_loop_raw_block)
    fix j assume "i < j" and "j < i + length ?block"
    then show "?H j = None" using interior inside by simp
  qed (use pl in simp_all)
  have mid: "post_rendering_loop ?H ?A 0 (take (i + nat n) (buf w)) (0, []) =
      (if n > page_maxlen - pl then (n, pre @ [''.bp''] @ ?block) else (pl + n, pre @ ?block))"
    unfolding upto post_rendering_loop_append before using block lenb by simp
  obtain pl2 out2 where st2:
    "post_rendering_loop ?H ?A 0 (take (i + nat n) (buf w)) (0, []) = (pl2, out2)"
    by (cases "post_rendering_loop ?H ?A 0 (take (i + nat n) (buf w)) (0, [])")
  from post_rendering_loop_shuffle [of ?H ?A "i + nat n" ?after pl2 out2]
  obtain pl3 post where
    fin: "post_rendering_loop ?H ?A (i + nat n) ?after (pl2, out2) = (pl3, out2 @ post)"
    by blast
  have "post_rendering_loop ?H ?A 0 (buf w) (0, []) = (pl3, out2 @ post)"
  proof -
    have "post_rendering_loop ?H ?A 0 (buf w) (0, []) =
        post_rendering_loop ?H ?A 0 ((?before @ ?block) @ ?after) (0, [])"
      using whole by simp
    also have "\<dots> = post_rendering_loop ?H ?A (0 + length (?before @ ?block)) ?after
        (post_rendering_loop ?H ?A 0 (?before @ ?block) (0, []))"
      by (rule post_rendering_loop_append)
    also have "\<dots> = post_rendering_loop ?H ?A (i + nat n) ?after (pl2, out2)"
      using st2 upto lenb lenk n by simp
    finally show ?thesis using fin by simp
  qed
  then have out: "output (post_rendering w) = out2 @ post"
    using start by (simp add: post_rendering_def)
  from mid st2 have out2: "out2 =
      (if n > page_maxlen - pl then pre @ [''.bp''] @ ?block else pre @ ?block)"
    by (simp split: if_splits)
  show ?thesis
    using before mid out out2 by (intro exI [of _ pl] exI [of _ pre] exI [of _ post]) simp
qed

theorem raw_block_contiguous_witness:
  "break_hints (new_writer\<lparr>buf := replicate 54 ''x'' @ [''r1'', ''r2'', ''y''],
        break_hints := [54 \<mapsto> (2, ''raw'')]\<rparr>) 54 = Some (2, ''raw'') \<and>
   output (post_rendering (new_writer\<lparr>buf := replicate 54 ''x'' @ [''r1'', ''r2'', ''y''],
        break_hints := [54 \<mapsto> (2, ''raw'')]\<rparr>)) =
     replicate 54 ''x'' @ [''.bp'', ''r1'', ''r2'', ''y''] \<and>
   (\<exists>page_len pre post.
      post_rendering_loop [54 \<mapsto> (2, ''raw'')] ''yes'' 0 (replicate 54 ''x'') (0, []) =
        (page_len, pre) \<and>
      2 > page_maxlen - page_len \<and>
      output (post_rendering (new_writer\<lparr>buf := replicate 54 ''x'' @ [''r1'', ''r2'', ''y''],
        break_hints := [54 \<mapsto> (2, ''raw'')]\<rparr>)) = pre @ [''.bp''] @ [''r1'', ''r2''] @ post)"
proof -
  let ?w = "new_writer\<lparr>buf := replicate 54 ''x'' @ [''r1'', ''r2'', ''y''],
        break_hints := [54 \<mapsto> (2, ''raw'')]\<rparr>"
  have hint: "break_hints ?w 54 = Some (2, ''raw'')" by simp
  have out: "output (post_rendering ?w) = replicate 54 ''x'' @ [''.bp'', ''r1'', ''r2'', ''y'']"
    by code_simp
  have pre: "post_rendering_loop [54 \<mapsto> (2, ''raw'')] ''yes'' 0 (replicate 54 ''x'') (0, []) =
      (54, replicate 54 ''x'')"
    by code_simp
  have interior: "\<forall>j. 54 < j \<and> j < 54 + nat 2 \<longrightarrow> break_hints ?w j = None"
    by auto
  have "\<exists>page_len pre post.
     post_rendering_loop (break_hints ?w) (pis_autobreaks ?w) 0 (take 54 (buf ?w)) (0, []) =
       (page_len, pre) \<and>
     post_rendering_loop (break_hints ?w) (pis_autobreaks ?w) 0 (take (54 + nat 2) (buf ?w)) (0, []) =
       (if 2 > page_maxlen - page_len
        then (2, pre @ [''.bp''] @ take (nat 2) (drop 54 (buf ?w)))
        else (page_len + 2, pre @ take (nat 2) (drop 54 (buf ?w)))) \<and>
     output (post_rendering ?w) =
       (if 2 > page_maxlen - page_len
        then pre @ [''.bp''] @ take (nat 2) (drop 54 (buf ?w)) @ post
        else pre @ take (nat 2) (drop 54 (buf ?w)) @ post)"
    using hint _ _ _ interior
  proof (rule raw_block_contiguous)
    show "output ?w = []" by (simp add: new_writer_def)
  qed (simp_all add: page_maxlen_def)
  then obtain page_len pre' post where
    a: "post_rendering_loop (break_hints ?w) (pis_autobreaks ?w) 0 (take 54 (buf ?w)) (0, []) =
       (page_len, pre')"
    and c: "output (post_rendering ?w) =
       (if 2 > page_maxlen - page_len
        then pre' @ [''.bp''] @ take (nat 2) (drop 54 (buf ?w)) @ post
        else pre' @ take (nat 2) (drop 54 (buf ?w)) @ post)"
    by blast
  from a pre have pl: "page_len = 54" "pre' = replicate 54 ''x''"
    by (simp_all add: new_writer_def)
  then have gt: "2 > page_maxlen - page_len" by (simp add: page_maxlen_def)
  with c have "output (post_rendering ?w) = pre' @ [''.bp''] @ [''r1'', ''r2''] @ post"
    by simp
  with a gt have "\<exists>page_len pre post.
      post_rendering_loop [54 \<mapsto> (2, ''raw'')] ''yes'' 0 (replicate 54 ''x'') (0, []) =
        (page_len, pre) \<and>
      2 > page_maxlen - page_len \<and>
      output (post_rendering ?w) = pre @ [''.bp''] @ [''r1'', ''r2''] @ post"
    by (simp add: new_writer_def)
  with hint out show ?thesis by blast
qed

subsection \<open>The block renderer: what a call leaves behind\<close>

lemma extend_target_buf [simp]:
  "buf (fst (extend_target xs st)) = buf (fst st) @ (case snd st of None \<Rightarrow> xs | Some tmp \<Rightarrow> [])"
  by (cases "snd st") (simp_all add: extend_target_def)

lemma extend_target_hints [simp]:
  "break_hints (fst (extend_target xs st)) = break_hints (fst st)"
  by (cases "snd st") (simp_all add: extend_target_def)

lemma extend_target_curr_indent [simp]:
  "curr_indent (fst (extend_target xs st)) = curr_indent (fst st)"
  by (cases "snd st") (simp_all add: extend_target_def)

lemma write_text_blankline_grows:
  "\<exists>ls. buf (fst (write_text_blankline a st)) = buf (fst st) @ ls"
  by (simp add: write_text_blankline_def Let_def)

lemma write_text_blankline_hints [simp]:
  "break_hints (fst (write_text_blankline a st)) = break_hints (fst st)"
  by (simp add: write_text_blankline_def Let_def)

lemma write_nroff_buf [simp]: "buf (write_nroff s w) = buf w @ [s]"
  by (simp add: write_nroff_def)

lemma write_nroff_hints [simp]: "break_hints (write_nroff s w) = break_hints w"
  by (simp add: write_nroff_def)

lemma write_nroff_curr_indent [simp]: "curr_indent (write_nroff s w) = curr_indent w"
  by (simp add: write_nroff_def)

lemma u_indent_grows: "\<exists>ls. buf (u_indent n w) = buf w @ ls"
  by (simp add: u_indent_def)

lemma u_indent_hints [simp]: "break_hints (u_indent n w) = break_hints w"
  by (simp add: u_indent_def)

lemma u_indent_curr_indent [simp]: "curr_indent (u_indent n w) = n"
  by (simp add: u_indent_def)

lemma write_text_par_grows:
  assumes "write_text_par wrap string a w = Inr (s2, par, w2)"
  shows "(\<exists>ls. buf w2 = buf w @ ls) \<and> break_hints w2 = break_hints w"
  using assms u_indent_grows [of "full_indent (indent a) (sub_indent a) (bullet a)" w]
  by (auto simp: write_text_par_def Let_def split: if_splits sum.splits)

lemma write_text_par_indent:
  assumes "write_text_par wrap string a w = Inr (s2, par, w2)"
    and "string \<noteq> []" and "align a \<noteq> ''center''"
  shows "w2 = u_indent (full_indent (indent a) (sub_indent a) (bullet a)) w"
  using assms
  by (auto simp: write_text_par_def Let_def split: if_splits sum.splits)

lemma write_text_blankline_curr_indent [simp]:
  "curr_indent (fst (write_text_blankline a st)) = curr_indent (fst st)"
  by (simp add: write_text_blankline_def Let_def)

lemma write_text_shape:
  assumes "write_text wrap string a w = Inr (w', tmp)"
  obtains s2 par w2 ls where
    "write_text_par wrap string a (fst (write_text_blankline a (w, buf_target (buf_arg a)))) =
       Inr (s2, par, w2)"
    and "buf w' = buf w2 @ ls"
    and "break_hints w' =
       (break_hints w2)(length (buf w) \<mapsto> (int (length (buf w')) - int (length (buf w)), ''txt''))"
    and "curr_indent w' = curr_indent w2"
proof -
  let ?st1 = "write_text_blankline a (w, buf_target (buf_arg a))"
  from assms obtain s2 par w2 where
    par: "write_text_par wrap string a (fst ?st1) = Inr (s2, par, w2)"
    by (auto simp: write_text_def Let_def split: sum.splits)
  let ?bulleted = "bullet a \<noteq> [] \<and> length (strip (bullet a)) > 0"
  let ?w3 = "if ?bulleted then write_nroff (''.ti '' @ str_int (indent a)) w2 else w2"
  let ?par2 = "if ?bulleted \<and> s2 = [] then par @ [bullet a] else par"
  let ?st4 = "extend_target ?par2 (?w3, snd ?st1)"
  from assms have "Inr ((fst ?st4)\<lparr>break_hints :=
      (break_hints (fst ?st4))(length (buf w) \<mapsto>
         (int (length (buf (fst ?st4))) - int (length (buf w)), ''txt''))\<rparr>, snd ?st4) =
      (Inr (w', tmp) :: error + writer \<times> string list option)"
    unfolding write_text_def Let_def par by (simp only: sum.case prod.case)
  then have w': "w' = (fst ?st4)\<lparr>break_hints :=
      (break_hints (fst ?st4))(length (buf w) \<mapsto>
         (int (length (buf (fst ?st4))) - int (length (buf w)), ''txt''))\<rparr>"
    by (simp only: sum.inject prod.inject)
  have "\<exists>ls. buf (fst ?st4) = buf w2 @ ls" by simp
  then obtain ls where "buf (fst ?st4) = buf w2 @ ls" by blast
  with w' have "buf w' = buf w2 @ ls" by simp
  moreover from w' have "break_hints w' =
       (break_hints w2)(length (buf w) \<mapsto> (int (length (buf w')) - int (length (buf w)), ''txt''))"
    by simp
  moreover from w' have "curr_indent w' = curr_indent w2" by simp
  ultimately show ?thesis using par that by blast
qed

text \<open>
  C7, as the code has it. A call of \<^verbatim>\<open>write_text\<close> that returns only appends to the buffer.
  It records one hint, at the length the buffer had on entry, with the number of lines
  the buffer grew by; that replaces whatever the ledger held at this offset and changes
  no other offset. The offset is at most the new length of the buffer, and below it
  exactly when the call appended a line to the buffer; when every earlier offset was at
  most the length of the buffer, every offset still is.
\<close>

theorem write_text_hint_offset:
  assumes "write_text wrap string a w = Inr (w', tmp)"
  shows "(\<exists>ls. buf w' = buf w @ ls) \<and>
     break_hints w' =
       (break_hints w)(length (buf w) \<mapsto>
          (int (length (buf w')) - int (length (buf w)), ''txt'')) \<and>
     length (buf w) \<le> length (buf w') \<and>
     (length (buf w) < length (buf w') \<longleftrightarrow> buf w' \<noteq> buf w) \<and>
     ((\<forall>k \<in> dom (break_hints w). k \<le> length (buf w)) \<longrightarrow>
      (\<forall>k \<in> dom (break_hints w'). k \<le> length (buf w')))"
proof -
  let ?st1 = "write_text_blankline a (w, buf_target (buf_arg a))"
  from assms obtain s2 par w2 ls where
    par: "write_text_par wrap string a (fst ?st1) = Inr (s2, par, w2)"
    and buf': "buf w' = buf w2 @ ls"
    and hints': "break_hints w' =
       (break_hints w2)(length (buf w) \<mapsto> (int (length (buf w')) - int (length (buf w)), ''txt''))"
    by (rule write_text_shape)
  from write_text_par_grows [OF par] obtain ls2 where
    "buf w2 = buf (fst ?st1) @ ls2" and h2: "break_hints w2 = break_hints (fst ?st1)" by blast
  moreover from write_text_blankline_grows [of a "(w, buf_target (buf_arg a))"]
  obtain ls1 where "buf (fst ?st1) = buf w @ ls1" by auto
  ultimately have grows: "buf w' = buf w @ (ls1 @ ls2 @ ls)" using buf' by simp
  from h2 have h: "break_hints w2 = break_hints w" by simp
  from grows have le: "length (buf w) \<le> length (buf w')" by simp
  from grows have lt: "length (buf w) < length (buf w') \<longleftrightarrow> buf w' \<noteq> buf w" by auto
  have keys: "\<forall>k \<in> dom (break_hints w'). k \<le> length (buf w')"
    if "\<forall>k \<in> dom (break_hints w). k \<le> length (buf w)"
  proof
    fix k assume "k \<in> dom (break_hints w')"
    with hints' h have "k = length (buf w) \<or> k \<in> dom (break_hints w)"
      by (auto split: if_splits)
    with that le show "k \<le> length (buf w')" by force
  qed
  from hints' h have hints: "break_hints w' =
       (break_hints w)(length (buf w) \<mapsto>
          (int (length (buf w')) - int (length (buf w)), ''txt''))"
    by simp
  from grows have ex: "\<exists>ls. buf w' = buf w @ ls" by blast
  from ex hints le lt keys show ?thesis by (intro conjI impI) assumption+
qed

text \<open>The claim asks for offsets strictly below the length of the buffer. A call with no
  text, no bullet and no leading blank line appends nothing and records offset 0 in an
  empty buffer.\<close>

theorem write_text_hint_offset_counterexample:
  "write_text wrap_narrow [] text_defaults new_writer =
     Inr (new_writer\<lparr>break_hints := [0 \<mapsto> (0, ''txt'')]\<rparr>, None) \<and>
   0 \<in> dom (break_hints (new_writer\<lparr>break_hints := [0 \<mapsto> (0, ''txt'')]\<rparr>)) \<and>
   \<not> 0 < length (buf (new_writer\<lparr>break_hints := [0 \<mapsto> (0, ''txt'')]\<rparr>))"
  by (simp add: write_text_def write_text_par_def write_text_blankline_def extend_target_def
      buf_target_def text_defaults_def new_writer_def wrap_narrow_def write_nroff_def
      u_indent_def full_indent_def nroff_linestart_meta_def nroff_escape_linestart_def
      startswith_def u_lb_def strip_def lstrip_def rstrip_def isspace_def str_int_def
      str_nat.simps Let_def)

theorem write_text_hint_offset_witness:
  "write_text wrap_narrow ''body'' (text_defaults\<lparr>bullet := ''1. ''\<rparr>) new_writer =
     Inr (new_writer\<lparr>buf := [''.in 3'', ''.ti 0'', ''1. body''], curr_indent := 3,
            break_hints := [0 \<mapsto> (3, ''txt'')]\<rparr>, None) \<and>
   break_hints (new_writer\<lparr>buf := [''.in 3'', ''.ti 0'', ''1. body''], curr_indent := 3,
            break_hints := [0 \<mapsto> (3, ''txt'')]\<rparr>) =
     (break_hints new_writer)(length (buf new_writer) \<mapsto> (3, ''txt'')) \<and>
   length (buf new_writer) <
     length (buf (new_writer\<lparr>buf := [''.in 3'', ''.ti 0'', ''1. body''], curr_indent := 3,
            break_hints := [0 \<mapsto> (3, ''txt'')]\<rparr>))"
proof -
  have call: "write_text wrap_narrow ''body'' (text_defaults\<lparr>bullet := ''1. ''\<rparr>) new_writer =
     Inr (new_writer\<lparr>buf := [''.in 3'', ''.ti 0'', ''1. body''], curr_indent := 3,
            break_hints := [0 \<mapsto> (3, ''txt'')]\<rparr>, None)"
    by (simp add: write_text_def write_text_par_def write_text_blankline_def extend_target_def
      buf_target_def text_defaults_def new_writer_def wrap_narrow_def write_nroff_def
      u_indent_def full_indent_def nroff_linestart_meta_def nroff_escape_linestart_def
      startswith_def u_lb_def strip_def lstrip_def rstrip_def isspace_def str_int_def
      str_nat.simps Let_def)
  from write_text_hint_offset [OF call] call show ?thesis
    by (simp add: new_writer_def)
qed

text \<open>
  C8, as the code has it. For a call with text that is not centred, the paragraph step
  calls the indentation tracker with \<open>full_indent\<close>, which is \<^verbatim>\<open>curr_indent\<close> afterwards:
  the base indent plus the continuation indent when a continuation indent is given (not
  zero, and the sum not zero), and the base indent plus the length of the bullet
  otherwise.
\<close>

theorem write_text_effective_indent:
  assumes "write_text wrap string a w = Inr (w', tmp)"
    and "string \<noteq> []" and "align a \<noteq> ''center''"
  shows "curr_indent w' =
     (if sub_indent a \<noteq> 0 \<and> indent a + sub_indent a \<noteq> 0 then indent a + sub_indent a
      else indent a + int (length (bullet a))) \<and>
   (\<exists>string2 par.
      write_text_par wrap string a (fst (write_text_blankline a (w, buf_target (buf_arg a)))) =
        Inr (string2, par,
          u_indent (full_indent (indent a) (sub_indent a) (bullet a))
            (fst (write_text_blankline a (w, buf_target (buf_arg a))))))"
proof -
  let ?st1 = "write_text_blankline a (w, buf_target (buf_arg a))"
  from assms(1) obtain s2 par w2 where
    par: "write_text_par wrap string a (fst ?st1) = Inr (s2, par, w2)"
    and ci: "curr_indent w' = curr_indent w2"
    by (rule write_text_shape)
  from write_text_par_indent [OF par assms(2,3)]
  have w2: "w2 = u_indent (full_indent (indent a) (sub_indent a) (bullet a)) (fst ?st1)" .
  with ci have "curr_indent w' =
     (if sub_indent a \<noteq> 0 \<and> indent a + sub_indent a \<noteq> 0 then indent a + sub_indent a
      else indent a + int (length (bullet a)))"
    by (simp add: full_indent_def)
  moreover from par w2 have "\<exists>string2 par.
      write_text_par wrap string a (fst ?st1) =
        Inr (string2, par,
          u_indent (full_indent (indent a) (sub_indent a) (bullet a)) (fst ?st1))"
    by blast
  ultimately show ?thesis by (rule conjI)
qed

text \<open>The claim takes the continuation indent alone. With base indent 3 and continuation
  indent 2 the tracker gets 5.\<close>

theorem write_text_effective_indent_counterexample:
  "write_text wrap_narrow ''x'' (text_defaults\<lparr>indent := 3, sub_indent := 2\<rparr>) new_writer =
     Inr (new_writer\<lparr>buf := [''.in 5'', ''x''], curr_indent := 5,
            break_hints := [0 \<mapsto> (2, ''txt'')]\<rparr>, None) \<and>
   curr_indent (new_writer\<lparr>buf := [''.in 5'', ''x''], curr_indent := 5,
            break_hints := [0 \<mapsto> (2, ''txt'')]\<rparr>) \<noteq>
     sub_indent (text_defaults\<lparr>indent := 3, sub_indent := 2\<rparr>)"
  by (simp add: write_text_def write_text_par_def write_text_blankline_def extend_target_def
      buf_target_def text_defaults_def new_writer_def wrap_narrow_def write_nroff_def
      u_indent_def full_indent_def nroff_linestart_meta_def nroff_escape_linestart_def
      startswith_def u_lb_def strip_def lstrip_def rstrip_def isspace_def str_int_def
      str_nat.simps Let_def)

text \<open>The bullet \<^verbatim>\<open>1. \<close> at base indent 0: the persistent indent is 3, and \<^verbatim>\<open>.ti 0\<close> stands
  before the bullet line.\<close>

theorem write_text_effective_indent_witness:
  "write_text wrap_narrow ''body'' (text_defaults\<lparr>bullet := ''1. ''\<rparr>) new_writer =
     Inr (new_writer\<lparr>buf := [''.in 3'', ''.ti 0'', ''1. body''], curr_indent := 3,
            break_hints := [0 \<mapsto> (3, ''txt'')]\<rparr>, None) \<and>
   ''body'' \<noteq> [] \<and>
   align (text_defaults\<lparr>bullet := ''1. ''\<rparr>) \<noteq> ''center'' \<and>
   curr_indent (new_writer\<lparr>buf := [''.in 3'', ''.ti 0'', ''1. body''], curr_indent := 3,
            break_hints := [0 \<mapsto> (3, ''txt'')]\<rparr>) =
     indent (text_defaults\<lparr>bullet := ''1. ''\<rparr>) +
       int (length (bullet (text_defaults\<lparr>bullet := ''1. ''\<rparr>)))"
proof -
  have call: "write_text wrap_narrow ''body'' (text_defaults\<lparr>bullet := ''1. ''\<rparr>) new_writer =
     Inr (new_writer\<lparr>buf := [''.in 3'', ''.ti 0'', ''1. body''], curr_indent := 3,
            break_hints := [0 \<mapsto> (3, ''txt'')]\<rparr>, None)"
    by (simp add: write_text_def write_text_par_def write_text_blankline_def extend_target_def
      buf_target_def text_defaults_def new_writer_def wrap_narrow_def write_nroff_def
      u_indent_def full_indent_def nroff_linestart_meta_def nroff_escape_linestart_def
      startswith_def u_lb_def strip_def lstrip_def rstrip_def isspace_def str_int_def
      str_nat.simps Let_def)
  have al: "align (text_defaults\<lparr>bullet := ''1. ''\<rparr>) \<noteq> ''center''"
    by (simp add: text_defaults_def)
  have ne: "''body'' \<noteq> []" by simp
  from write_text_effective_indent [OF call ne al]
  have "curr_indent (new_writer\<lparr>buf := [''.in 3'', ''.ti 0'', ''1. body''], curr_indent := 3,
            break_hints := [0 \<mapsto> (3, ''txt'')]\<rparr>) =
     indent (text_defaults\<lparr>bullet := ''1. ''\<rparr>) +
       int (length (bullet (text_defaults\<lparr>bullet := ''1. ''\<rparr>)))"
    by (simp add: text_defaults_def)
  with call ne al show ?thesis by (intro conjI)
qed

subsection \<open>Escaping of content lines\<close>

text \<open>
  C6. A line that starts with a sentinel must reach the output escaped. Wrapped text is
  escaped (third conjunct), but a bullet with no text is appended as it is (lines
  136--138), and so are the entries of the table of contents (line 161): the line
  \<^verbatim>\<open>.x\<close> and the entry \<^verbatim>\<open>.NET notes . . . 3\<close> arrive unescaped.
\<close>

theorem bullet_line_not_escaped:
  "write_text wrap_narrow [] (text_defaults\<lparr>bullet := ''.x''\<rparr>) new_writer =
     Inr (new_writer\<lparr>buf := [''.ti 0'', ''.x''], break_hints := [0 \<mapsto> (2, ''txt'')]\<rparr>, None) \<and>
   output (post_rendering
     (new_writer\<lparr>buf := [''.ti 0'', ''.x''], break_hints := [0 \<mapsto> (2, ''txt'')]\<rparr>)) =
     [''.ti 0'', ''.x''] \<and>
   write_text wrap_narrow ''.x'' text_defaults new_writer =
     Inr (new_writer\<lparr>buf := [backslash # ''&.x''], break_hints := [0 \<mapsto> (1, ''txt'')]\<rparr>, None) \<and>
   u_post_write_toc [] (new_writer\<lparr>toc := [''.NET notes . . . 3'']\<rparr>) =
     [''.ti 0'', ''Table of Contents'', [], ''.in 3'', ''.nf'', ''.NET notes . . . 3'', ''.fi'']"
  by (simp add: write_text_def write_text_par_def write_text_blankline_def extend_target_def
      buf_target_def text_defaults_def new_writer_def wrap_narrow_def write_nroff_def
      u_indent_def full_indent_def nroff_linestart_meta_def nroff_escape_linestart_def
      startswith_def u_lb_def strip_def lstrip_def rstrip_def isspace_def str_int_def
      str_nat.simps Let_def post_rendering_def post_rendering_step_def hint_break_def
      page_maxlen_def u_post_write_toc_def)

subsection \<open>Indent commands\<close>

text \<open>
  C5. Indent commands must not repeat a level. \<^verbatim>\<open>write_heading\<close> writes \<^verbatim>\<open>.in\<close> itself
  (line 220) and leaves \<^verbatim>\<open>curr_indent\<close> as it was: two long headings in a row put
  \<^verbatim>\<open>.in 4\<close> in the buffer twice with no other indent command between them, while
  \<^verbatim>\<open>curr_indent\<close> still says 0.
\<close>

theorem heading_repeats_indent_command:
  "write_heading ''A fairly long heading'' ''1.'' (new_writer\<lparr>width := 20\<rparr>) =
     Inr (new_writer\<lparr>width := 20,
            buf := [[], ''.in 4'', ''.ti 0'', ''1.  A fairly long heading'']\<rparr>) \<and>
   write_heading ''Another long heading'' ''2.''
       (new_writer\<lparr>width := 20,
            buf := [[], ''.in 4'', ''.ti 0'', ''1.  A fairly long heading'']\<rparr>) =
     Inr (new_writer\<lparr>width := 20,
            buf := [[], ''.in 4'', ''.ti 0'', ''1.  A fairly long heading'',
                    [], ''.in 4'', ''.ti 0'', ''2.  Another long heading'']\<rparr>) \<and>
   indent_commands [[], ''.in 4'', ''.ti 0'', ''1.  A fairly long heading'',
                    [], ''.in 4'', ''.ti 0'', ''2.  Another long heading''] =
     [''.in 4'', ''.in 4''] \<and>
   \<not> distinct_adj [''.in 4'', ''.in 4''] \<and>
   curr_indent (new_writer\<lparr>width := 20,
            buf := [[], ''.in 4'', ''.ti 0'', ''1.  A fairly long heading'',
                    [], ''.in 4'', ''.ti 0'', ''2.  Another long heading'']\<rparr>) = 0"
  by (simp add: write_heading_def write_line_def indent_commands_def new_writer_def
      write_nroff_def u_lb_def nroff_linestart_meta_def startswith_def str_int_def
      str_nat.simps Let_def)

subsection \<open>Cross-references\<close>

text \<open>
  C9. The display text of a cross-reference is the target in square brackets when the
  anchor resolves to no item or the format is \<^verbatim>\<open>none\<close>; otherwise the item's counter for
  \<^verbatim>\<open>counter\<close>, its title for \<^verbatim>\<open>title\<close>, and its generated name for any other format. When
  the element has text of its own, the result is that text, stripped on the right, a
  space, and the display text: in parentheses when it does not start with a bracket,
  after \<^verbatim>\<open>\%\<close> when it is bracketed and holds a full stop or a hyphen, and as it is
  otherwise. With no text of its own the display text is returned, after \<^verbatim>\<open>\%\<close> when it
  holds a full stop or a hyphen.
\<close>

theorem expand_xref_cases:
  "(let target = attrib_get (attrib x) ''target'' [];
        format = attrib_get (attrib x) ''format'' (defaults_xref_format w);
        display = xref_target_text g x w;
        punct = (CHR ''.'' \<in> set display \<or> CHR ''-'' \<in> set display)
    in (g target = None \<or> format = ''none'' \<longrightarrow> display = ''['' @ target @ '']'') \<and>
       (\<forall>it. g target = Some it \<and> format = ''counter'' \<longrightarrow> display = counter it) \<and>
       (\<forall>it. g target = Some it \<and> format = ''title'' \<longrightarrow> display = title it) \<and>
       (\<forall>it. g target = Some it \<and> format \<notin> {''none'', ''counter'', ''title''} \<longrightarrow>
             display = autoName it) \<and>
       (\<forall>t. text x = Some t \<and> t \<noteq> [] \<and> \<not> startswith display ''['' \<longrightarrow>
             u_expand_xref g x w = rstrip t @ '' '' @ ''('' @ display @ '')'') \<and>
       (\<forall>t. text x = Some t \<and> t \<noteq> [] \<and> startswith display ''['' \<and> punct \<longrightarrow>
             u_expand_xref g x w = rstrip t @ '' '' @ backslash # CHR ''%'' # display) \<and>
       (\<forall>t. text x = Some t \<and> t \<noteq> [] \<and> startswith display ''['' \<and> \<not> punct \<longrightarrow>
             u_expand_xref g x w = rstrip t @ '' '' @ display) \<and>
       (text x = None \<or> text x = Some [] \<longrightarrow>
             u_expand_xref g x w = (if punct then backslash # CHR ''%'' # display else display)))"
  by (auto simp: xref_target_text_def u_expand_xref_def Let_def split: option.splits)

theorem expand_xref_cases_witness:
  "Map.empty (attrib_get (attrib \<lparr>attrib = [''target'' \<mapsto> ''RFC-2119''], text = Some ''see  ''\<rparr>)
      ''target'' []) = (None :: item option) \<and>
   xref_target_text Map.empty \<lparr>attrib = [''target'' \<mapsto> ''RFC-2119''], text = Some ''see  ''\<rparr>
      new_writer = ''[RFC-2119]'' \<and>
   u_expand_xref Map.empty \<lparr>attrib = [''target'' \<mapsto> ''RFC-2119''], text = Some ''see  ''\<rparr>
      new_writer = ''see '' @ backslash # ''%[RFC-2119]''"
  using expand_xref_cases [of "\<lparr>attrib = [''target'' \<mapsto> ''RFC-2119''], text = Some ''see  ''\<rparr>"
      new_writer Map.empty]
  by (simp add: Let_def attrib_get_def startswith_def rstrip_def isspace_def)

end
